theory Spec2Isabelle
  imports Main "HOL-Library.Word"
begin

unbundle bit_operations_syntax

section \<open>md2zd: Markdown code-fence highlighting and the rendering pipeline\<close>

text \<open>
  The program is one Python module, \<^verbatim>\<open>md2zd.py\<close>. Its core is the substitution
  \<^verbatim>\<open>CODE_RE.sub(md_codeblock, md)\<close> with
  \<^verbatim>\<open>CODE_RE = re.compile(r"^```([a-z]+)?$(.+?)^```$", re.S | re.M)\<close>.
  Python strings are modelled as \<^typ>\<open>string\<close>; the matcher walks over the text with a
  cursor made of the character just before the current position (\<open>None\<close> at the start of
  the string) and the text that is left. The pattern tells apart the backtick, the line
  feed and the letters \<^verbatim>\<open>a\<close> to \<^verbatim>\<open>z\<close> only; every other character is treated alike.
\<close>

subsection \<open>External libraries\<close>

text \<open>
  pygments, cmarkgfm and tidy are third-party packages. The functions the module calls are
  fields of a record that every operation takes as its first argument.
  \<^item> \<open>get_lexer_by_name\<close>: \<^verbatim>\<open>pygments.lexers.get_lexer_by_name\<close>; \<open>None\<close> is the
    \<^verbatim>\<open>ValueError\<close> (\<^verbatim>\<open>ClassNotFound\<close>) it raises for a name it does not know. Its argument
    is the first group of the match, which is Python's \<^verbatim>\<open>None\<close> when the group took no part.
  \<^item> \<open>TextLexer\<close>: \<^verbatim>\<open>pygments.lexers.TextLexer()\<close>.
  \<^item> \<open>highlight\<close>: \<^verbatim>\<open>pygments.highlight(code, lexer, FORMATTER)\<close> with the module's fixed
    \<^verbatim>\<open>FORMATTER\<close>.
  \<^item> \<open>markdown_to_html\<close>: \<^verbatim>\<open>cmarkgfm.markdown_to_html(text, options)\<close>.
  \<^item> \<open>parseString\<close>: \<^verbatim>\<open>str(tidy.parseString(html, **options))\<close>.
\<close>

record tidy_options =
  indent :: string
  show_body_only :: int
  tidy_mark :: int

record 'l libs =
  get_lexer_by_name :: "string option \<Rightarrow> 'l option"
  TextLexer :: 'l
  highlight :: "string \<Rightarrow> 'l \<Rightarrow> string"
  markdown_to_html :: "string \<Rightarrow> int \<Rightarrow> string"
  parseString :: "string \<Rightarrow> tidy_options \<Rightarrow> string"

subsection \<open>Constants\<close>

text \<open>\<^verbatim>\<open>CMARK_FLAGS = 132096  # UNSAFE = 1 << 17; SMART = 1 << 10; CMARK_FLAGS = UNSAFE | SMART\<close>\<close>

definition UNSAFE :: int where
  \<open>UNSAFE = push_bit 17 1\<close>

definition SMART :: int where
  \<open>SMART = push_bit 10 1\<close>

definition CMARK_FLAGS :: int where
  \<open>CMARK_FLAGS = 132096\<close>

subsection \<open>The pattern \<^verbatim>\<open>^```([a-z]+)?$(.+?)^```$\<close> under \<^verbatim>\<open>re.S | re.M\<close>\<close>

definition nl :: char where
  \<open>nl = CHR 0x0A\<close>

definition ticks :: string where
  \<open>ticks = ''```''\<close>

text \<open>\<^verbatim>\<open>^\<close> with \<^verbatim>\<open>re.M\<close>: at the start of the string or right after a line feed.\<close>

definition at_bol :: "char option \<Rightarrow> bool" where
  \<open>at_bol prev = (case prev of None \<Rightarrow> True | Some c \<Rightarrow> c = nl)\<close>

text \<open>\<^verbatim>\<open>$\<close> with \<^verbatim>\<open>re.M\<close>: at the end of the string or right before a line feed.\<close>

definition at_eol :: "string \<Rightarrow> bool" where
  \<open>at_eol rest = (case rest of [] \<Rightarrow> True | c # cs \<Rightarrow> c = nl)\<close>

text \<open>The character class \<^verbatim>\<open>[a-z]\<close>.\<close>

definition is_lower :: "char \<Rightarrow> bool" where
  \<open>is_lower c = (97 \<le> (of_char c :: nat) \<and> (of_char c :: nat) \<le> 122)\<close>

text \<open>A literal: the text left after it, when the input starts with it.\<close>

fun lit :: "string \<Rightarrow> string \<Rightarrow> string option" where
  \<open>lit [] s = Some s\<close>
| \<open>lit (p # ps) [] = None\<close>
| \<open>lit (p # ps) (c # cs) = (if p = c then lit ps cs else None)\<close>

text \<open>The end of the pattern, \<^verbatim>\<open>^```$\<close>, tried at one cursor.\<close>

definition close_here :: "char option \<Rightarrow> string \<Rightarrow> string option" where
  \<open>close_here prev rest =
     (if at_bol prev then
        (case lit ticks rest of
           None \<Rightarrow> None
         | Some r \<Rightarrow> if at_eol r then Some r else None)
      else None)\<close>

text \<open>
  The second group with what follows it, \<^verbatim>\<open>(.+?)^```$\<close>. The dot takes any character
  (\<^verbatim>\<open>re.S\<close>); the lazy repetition takes one character, tries the rest of the pattern, and
  takes one more only when that fails. The result is the group and the text after the match.
\<close>

fun body_lazy :: "string \<Rightarrow> string \<Rightarrow> (string \<times> string) option" where
  \<open>body_lazy acc [] = None\<close>
| \<open>body_lazy acc (c # cs) =
     (case close_here (Some c) cs of
        Some r \<Rightarrow> Some (acc @ [c], r)
      | None \<Rightarrow> body_lazy (acc @ [c]) cs)\<close>

text \<open>Everything after the first group: \<^verbatim>\<open>$(.+?)^```$\<close>.\<close>

definition tail_here :: "string \<Rightarrow> (string \<times> string) option" where
  \<open>tail_here rest = (if at_eol rest then body_lazy [] rest else None)\<close>

text \<open>
  The first group, \<^verbatim>\<open>([a-z]+)?\<close>, with backtracking. Both repetitions are greedy: of the
  \<open>n\<close> letters at the cursor the group first takes all, then one fewer each time the rest
  of the pattern fails, down to one letter; last, the group is skipped and stays unset.
\<close>

fun group1 :: "nat \<Rightarrow> string \<Rightarrow> (string option \<times> string \<times> string) option" where
  \<open>group1 0 rest =
     (case tail_here rest of
        None \<Rightarrow> None
      | Some (code, r) \<Rightarrow> Some (None, code, r))\<close>
| \<open>group1 (Suc n) rest =
     (case tail_here (drop (Suc n) rest) of
        Some (code, r) \<Rightarrow> Some (Some (take (Suc n) rest), code, r)
      | None \<Rightarrow> group1 n rest)\<close>

text \<open>
  The whole pattern tried at one cursor (\<^verbatim>\<open>CODE_RE.match\<close> at a position): the two groups
  and the text after the match.
\<close>

definition match_here :: "char option \<Rightarrow> string \<Rightarrow> (string option \<times> string \<times> string) option" where
  \<open>match_here prev rest =
     (if at_bol prev then
        (case lit ticks rest of
           None \<Rightarrow> None
         | Some r \<Rightarrow> group1 (length (takeWhile is_lower r)) r)
      else None)\<close>

text \<open>
  \<^verbatim>\<open>CODE_RE.search\<close> from a cursor: the pattern is tried at each position from left to
  right. The result is the text skipped before the match, the groups, and the text after
  the match.
\<close>

fun search :: "char option \<Rightarrow> string \<Rightarrow> (string \<times> (string option \<times> string) \<times> string) option" where
  \<open>search prev [] =
     (case match_here prev [] of
        Some (lang, code, r) \<Rightarrow> Some ([], (lang, code), r)
      | None \<Rightarrow> None)\<close>
| \<open>search prev (c # cs) =
     (case match_here prev (c # cs) of
        Some (lang, code, r) \<Rightarrow> Some ([], (lang, code), r)
      | None \<Rightarrow>
          (case search (Some c) cs of
             None \<Rightarrow> None
           | Some (pre, g, r) \<Rightarrow> Some (c # pre, g, r)))\<close>

subsection \<open>Substitution\<close>

text \<open>
  \<^verbatim>\<open>CODE_RE.sub\<close> collects pieces and joins them: the text between two matches is copied,
  each match is handed to the replacement function. The search goes on where the match
  ended; a match ends with a backtick, which is then the character before the cursor.
  The pieces are the text before the first match, the first match, the text up to the
  next match, and so on, ending with the text after the last match. The recursion ends
  because every match is at least one character long, which is proved with the lemmas.
\<close>

datatype piece = Slice string | Found "string option \<times> string"

function subx :: "char option \<Rightarrow> string \<Rightarrow> piece list" where
  \<open>subx prev rest =
     (case search prev rest of
        None \<Rightarrow> [Slice rest]
      | Some (pre, g, r) \<Rightarrow> Slice pre # Found g # subx (Some (CHR 0x60)) r)\<close>
  by pat_completeness auto

subsection \<open>The module's functions\<close>

text \<open>
  An f-string field \<^verbatim>\<open>{lang}\<close> formats its value with \<^verbatim>\<open>str\<close>: a string stays as it is,
  \<^verbatim>\<open>None\<close> becomes the four characters \<^verbatim>\<open>None\<close>.
\<close>

definition format_str :: "string option \<Rightarrow> string" where
  \<open>format_str v = (case v of None \<Rightarrow> ''None'' | Some s \<Rightarrow> s)\<close>

text \<open>
  \<^verbatim>\<open>md_codeblock\<close>: the groups of the match are unpacked, the lexer is looked up by the
  first group with \<^verbatim>\<open>TextLexer()\<close> taken when the lookup raises \<^verbatim>\<open>ValueError\<close>, the second
  group is highlighted, and the result is wrapped:
  \<^verbatim>\<open>f'<pre class="highlight"><code class="language-{lang}">{formatted}</code></pre>'\<close>.
\<close>

definition md_codeblock :: "'l libs \<Rightarrow> string option \<times> string \<Rightarrow> string" where
  \<open>md_codeblock L m =
     (case m of (lang, code) \<Rightarrow>
        let lexer = (case get_lexer_by_name L lang of
                       Some lx \<Rightarrow> lx
                     | None \<Rightarrow> TextLexer L);
            formatted = highlight L code lexer
        in ''<pre class="highlight"><code class="language-'' @ format_str lang @ ''">''
             @ formatted @ ''</code></pre>'')\<close>

text \<open>
  \<^verbatim>\<open>md_highlight\<close> is \<^verbatim>\<open>CODE_RE.sub(md_codeblock, md)\<close>: the pieces of the substitution over
  the whole text, each match replaced by what \<open>md_codeblock\<close> returns for it, joined.
\<close>

fun emit :: "'l libs \<Rightarrow> piece \<Rightarrow> string" where
  \<open>emit L (Slice s) = s\<close>
| \<open>emit L (Found m) = md_codeblock L m\<close>

definition md_highlight :: "'l libs \<Rightarrow> string \<Rightarrow> string" where
  \<open>md_highlight L md = concat (map (emit L) (subx None md))\<close>

text \<open>
  \<^verbatim>\<open>md_parse\<close> is \<^verbatim>\<open>cmarkgfm.markdown_to_html(md, CMARK_FLAGS)\<close>,
  \<^verbatim>\<open>md_highlight_and_parse\<close> is \<^verbatim>\<open>md_parse(md_highlight(md))\<close>, and \<^verbatim>\<open>tidy_html\<close> is
  \<^verbatim>\<open>str(tidy.parseString(html, indent="auto", show_body_only=1, tidy_mark=0))\<close>.
\<close>

definition md_parse :: "'l libs \<Rightarrow> string \<Rightarrow> string" where
  \<open>md_parse L md = markdown_to_html L md CMARK_FLAGS\<close>

definition md_highlight_and_parse :: "'l libs \<Rightarrow> string \<Rightarrow> string" where
  \<open>md_highlight_and_parse L md = md_parse L (md_highlight L md)\<close>

definition tidy_html :: "'l libs \<Rightarrow> string \<Rightarrow> string" where
  \<open>tidy_html L html =
     parseString L html \<lparr>indent = ''auto'', show_body_only = 1, tidy_mark = 0\<rparr>\<close>

text \<open>
  \<^verbatim>\<open>md2kb\<close> reads the file and prints the result. The file system is a map from paths to
  texts, and a path without a file makes \<^verbatim>\<open>read_text\<close> raise. \<^verbatim>\<open>print\<close> writes its
  argument and a line feed to the standard output; the result of \<open>md2kb\<close> is what was
  written.
\<close>

datatype error = OSError

definition print :: "string \<Rightarrow> string" where
  \<open>print s = s @ [nl]\<close>

definition md2kb :: "'l libs \<Rightarrow> (string \<rightharpoonup> string) \<Rightarrow> string \<Rightarrow> error + string" where
  \<open>md2kb L fs filepath =
     (case fs filepath of
        None \<Rightarrow> Inl OSError
      | Some md \<Rightarrow>
          let html = tidy_html L (md_highlight_and_parse L md)
          in Inr (print html))\<close>

section \<open>Documents, lines and fences\<close>

text \<open>
  The vocabulary in which the properties of the substitution are stated. None of it is
  part of the module; it describes documents the way the specification does, as lines and
  fenced blocks.
\<close>

subsection \<open>Lines\<close>

text \<open>The lines of a text, split at every line feed (\<^verbatim>\<open>md.split("\n")\<close>), and their join.\<close>

fun lines_of :: "string \<Rightarrow> string list" where
  \<open>lines_of [] = [[]]\<close>
| \<open>lines_of (c # cs) =
     (if c = nl then [] # lines_of cs
      else (case lines_of cs of [] \<Rightarrow> [[c]] | l # ls \<Rightarrow> (c # l) # ls))\<close>

fun join_lines :: "string list \<Rightarrow> string" where
  \<open>join_lines [] = []\<close>
| \<open>join_lines [x] = x\<close>
| \<open>join_lines (x # y # ys) = x @ [nl] @ join_lines (y # ys)\<close>

text \<open>
  An opening fence line: three backticks and then lowercase letters only, or nothing. The
  closing line, three backticks alone, is one of them.
\<close>

definition opener_line :: "string \<Rightarrow> bool" where
  \<open>opener_line l = (case lit ticks l of None \<Rightarrow> False | Some tag \<Rightarrow> list_all is_lower tag)\<close>

text \<open>No opening fence line of the list is followed later by a closing line.\<close>

fun no_closed_fence :: "string list \<Rightarrow> bool" where
  \<open>no_closed_fence [] = True\<close>
| \<open>no_closed_fence (l # ls) = ((opener_line l \<longrightarrow> ticks \<notin> set ls) \<and> no_closed_fence ls)\<close>

text \<open>Some opening fence line of the list is not followed later by a closing line.\<close>

fun has_unterminated_opener :: "string list \<Rightarrow> bool" where
  \<open>has_unterminated_opener [] = False\<close>
| \<open>has_unterminated_opener (l # ls) =
     ((opener_line l \<and> ticks \<notin> set ls) \<or> has_unterminated_opener ls)\<close>

text \<open>The carriage return.\<close>

definition CR :: char where
  \<open>CR = CHR 0x0D\<close>

subsection \<open>Positions where the pattern matches\<close>

text \<open>
  The pattern matches at position \<open>i\<close> of a text; a text has a fence when it matches at
  some position, the end of the text included (\<^verbatim>\<open>CODE_RE.search(md) is not None\<close>).
\<close>

definition matches_at :: "string \<Rightarrow> nat \<Rightarrow> bool" where
  \<open>matches_at md i =
     (match_here (if i = 0 then None else Some (md ! (i - 1))) (drop i md) \<noteq> None)\<close>

definition has_fence :: "string \<Rightarrow> bool" where
  \<open>has_fence md = list_ex (matches_at md) [0..<Suc (length md)]\<close>

subsection \<open>Well-formed documents\<close>

text \<open>
  A document is a list of items, each a plain line or a fenced block with its tag (empty
  for none) and its body lines; consecutive items are separated by one line feed. The
  source text of a fence is the opening line, the body lines and the closing line.
\<close>

datatype item = Line string | Fence string "string list"

definition body_text :: "string list \<Rightarrow> string" where
  \<open>body_text body = concat (map (\<lambda>l. l @ [nl]) body)\<close>

fun source_of :: "item \<Rightarrow> string" where
  \<open>source_of (Line l) = l\<close>
| \<open>source_of (Fence tag body) = ticks @ tag @ [nl] @ body_text body @ ticks\<close>

definition render :: "item list \<Rightarrow> string" where
  \<open>render doc = join_lines (map source_of doc)\<close>

text \<open>
  The groups the pattern is expected to capture from a fence: the tag, unset when there is
  none, and the body from the line feed that ends the opening line up to the line feed
  before the closing line.
\<close>

definition groups_of :: "string \<Rightarrow> string list \<Rightarrow> string option \<times> string" where
  \<open>groups_of tag body = (if tag = [] then None else Some tag, [nl] @ body_text body)\<close>

text \<open>What an item is expected to become: a line stays, a fence becomes one wrapped block.\<close>

fun highlighted :: "'l libs \<Rightarrow> item \<Rightarrow> string" where
  \<open>highlighted L (Line l) = l\<close>
| \<open>highlighted L (Fence tag body) = md_codeblock L (groups_of tag body)\<close>

text \<open>
  Well-formed items. A plain line holds no line feed and is not an opening fence line (so
  it is neither a stray closing line nor an opening line left without its block). The tag
  of a fence is made of lowercase letters, and no body line is the closing line.
\<close>

fun wf_item :: "item \<Rightarrow> bool" where
  \<open>wf_item (Line l) = (nl \<notin> set l \<and> \<not> opener_line l)\<close>
| \<open>wf_item (Fence tag body) =
     (list_all is_lower tag \<and> list_all (\<lambda>l. nl \<notin> set l \<and> l \<noteq> ticks) body)\<close>

text \<open>The fences of a document in order, as the groups expected from each.\<close>

fun fences :: "item list \<Rightarrow> (string option \<times> string) list" where
  \<open>fences [] = []\<close>
| \<open>fences (Line l # doc) = fences doc\<close>
| \<open>fences (Fence tag body # doc) = groups_of tag body # fences doc\<close>

subsection \<open>Pieces of a substitution\<close>

text \<open>The matches among the pieces, in order: one replacement call for each.\<close>

fun found_groups :: "piece list \<Rightarrow> (string option \<times> string) list" where
  \<open>found_groups [] = []\<close>
| \<open>found_groups (Slice s # ps) = found_groups ps\<close>
| \<open>found_groups (Found g # ps) = g # found_groups ps\<close>

text \<open>
  Three operations for the proofs: a search result whose skipped text is extended to the
  left, a piece list whose first slice is extended to the left, and the character before
  the cursor once a text has been walked over.
\<close>

definition shift :: "string \<Rightarrow> (string \<times> 'a) option \<Rightarrow> (string \<times> 'a) option" where
  \<open>shift t res = map_option (\<lambda>(p, x). (t @ p, x)) res\<close>

fun prepend_slice :: "string \<Rightarrow> piece list \<Rightarrow> piece list" where
  \<open>prepend_slice t (Slice p # ps) = Slice (t @ p) # ps\<close>
| \<open>prepend_slice t ps = Slice t # ps\<close>

definition last_prev :: "char option \<Rightarrow> string \<Rightarrow> char option" where
  \<open>last_prev prev l = (if l = [] then prev else Some (last l))\<close>

section \<open>A stand-in for the libraries\<close>

text \<open>
  To run the definitions on concrete documents the library record needs a value. This one
  knows the lexer name \<^verbatim>\<open>python\<close> only, highlights by returning the code as it is, renders
  Markdown by wrapping the text in a paragraph and tidies by indenting with two spaces.
\<close>

datatype demo_lexer = PythonLexer | PlainLexer

definition demo_libs :: "demo_lexer libs" where
  \<open>demo_libs =
     \<lparr>get_lexer_by_name = (\<lambda>alias. if alias = Some ''python'' then Some PythonLexer else None),
      TextLexer = PlainLexer,
      highlight = (\<lambda>code lexer. code),
      markdown_to_html = (\<lambda>text options. ''<p>'' @ text @ ''</p>''),
      parseString = (\<lambda>html options. ''  '' @ html)\<rparr>\<close>

section \<open>Lemmas\<close>

lemmas matcher_defs = match_here_def close_here_def tail_here_def at_bol_def at_eol_def
  is_lower_def ticks_def nl_def

subsection \<open>Termination of the substitution\<close>

text \<open>Every match takes at least one character, so the text left after it is shorter.\<close>

lemma lit_length: \<open>lit p s = Some r \<Longrightarrow> length s = length p + length r\<close>
  by (induction p s rule: lit.induct) (auto split: if_splits)

lemma close_here_length: \<open>close_here prev s = Some r \<Longrightarrow> length r \<le> length s\<close>
  by (auto simp: close_here_def dest!: lit_length split: option.splits if_splits)

lemma body_lazy_length: \<open>body_lazy acc s = Some (code, r) \<Longrightarrow> length r < length s\<close>
proof (induction s arbitrary: acc)
  case Nil
  then show ?case by simp
next
  case (Cons c cs)
  show ?case
  proof (cases \<open>close_here (Some c) cs\<close>)
    case None
    with Cons.prems have \<open>body_lazy (acc @ [c]) cs = Some (code, r)\<close> by simp
    from Cons.IH [OF this] show ?thesis by simp
  next
    case (Some r')
    with Cons.prems have \<open>r' = r\<close> by simp
    with close_here_length [OF Some] show ?thesis by simp
  qed
qed

lemma group1_length: \<open>group1 n s = Some (lang, code, r) \<Longrightarrow> length r < length s\<close>
proof (induction n)
  case 0
  then show ?case
    by (auto simp: tail_here_def dest: body_lazy_length split: option.splits if_splits)
next
  case (Suc n)
  show ?case
  proof (cases \<open>tail_here (drop (Suc n) s)\<close>)
    case None
    with Suc show ?thesis by simp
  next
    case (Some a)
    then obtain c r' where \<open>body_lazy [] (drop (Suc n) s) = Some (c, r')\<close>
      by (cases a) (auto simp: tail_here_def split: if_splits)
    from body_lazy_length [OF this] Some Suc.prems \<open>body_lazy [] (drop (Suc n) s) = Some (c, r')\<close>
    show ?thesis by (auto simp: tail_here_def split: if_splits)
  qed
qed

lemma match_here_length: \<open>match_here prev s = Some (lang, code, r) \<Longrightarrow> length r < length s\<close>
  by (auto simp: match_here_def dest!: lit_length group1_length split: option.splits if_splits)

lemma search_length: \<open>search prev s = Some (pre, g, r) \<Longrightarrow> length r < length s\<close>
proof (induction s arbitrary: prev pre)
  case Nil
  then show ?case by (auto dest: match_here_length split: option.splits)
next
  case (Cons c cs)
  show ?case
  proof (cases \<open>match_here prev (c # cs)\<close>)
    case None
    with Cons.prems obtain pre' where \<open>search (Some c) cs = Some (pre', g, r)\<close>
      by (auto split: option.splits)
    from Cons.IH [OF this] show ?thesis by simp
  next
    case (Some a)
    with Cons.prems show ?thesis
      by (cases a) (auto dest: match_here_length)
  qed
qed

termination subx
  by (relation \<open>measure (\<lambda>(prev, rest). length rest)\<close>) (auto dest: search_length)

declare subx.simps [simp del]

subsection \<open>Literals, letters and the first group\<close>

lemma lit_iff: \<open>lit p s = Some r \<longleftrightarrow> s = p @ r\<close>
  by (induction p s rule: lit.induct) auto

lemma lit_append [simp]: \<open>lit p (p @ r) = Some r\<close>
  by (simp add: lit_iff)

lemma not_lower_nl [simp]: \<open>\<not> is_lower nl\<close>
  by (simp add: is_lower_def nl_def)

lemma nl_notin_ticks [simp]: \<open>nl \<notin> set ticks\<close>
  by (simp add: ticks_def nl_def)

lemma tail_here_lower: \<open>is_lower c \<Longrightarrow> tail_here (c # s) = None\<close>
  by (auto simp: tail_here_def at_eol_def)

lemma group1_below:
  \<open>k < length (takeWhile is_lower r) \<Longrightarrow> group1 k r = None\<close>
proof (induction k)
  case 0
  then obtain c cs where \<open>r = c # cs\<close> \<open>is_lower c\<close>
    by (cases r) (auto split: if_splits)
  then show ?case by (simp add: tail_here_lower)
next
  case (Suc k)
  from Suc.prems have \<open>Suc k < length r\<close>
    using length_takeWhile_le [of is_lower r] by linarith
  then have \<open>drop (Suc k) r = r ! Suc k # drop (Suc (Suc k)) r\<close>
    by (simp add: Cons_nth_drop_Suc)
  moreover from Suc.prems have \<open>is_lower (r ! Suc k)\<close>
    by (metis nth_mem set_takeWhileD takeWhile_nth)
  ultimately have \<open>tail_here (drop (Suc k) r) = None\<close>
    by (simp add: tail_here_lower)
  with Suc show ?case by simp
qed

lemma group1_greedy:
  \<open>group1 (length (takeWhile is_lower r)) r =
     (case tail_here (dropWhile is_lower r) of
        None \<Rightarrow> None
      | Some (code, r') \<Rightarrow>
          Some (if takeWhile is_lower r = [] then None else Some (takeWhile is_lower r), code, r'))\<close>
proof (cases \<open>length (takeWhile is_lower r)\<close>)
  case 0
  then have \<open>takeWhile is_lower r = []\<close> by simp
  then have \<open>dropWhile is_lower r = r\<close>
    by (metis append_Nil takeWhile_dropWhile_id)
  with 0 \<open>takeWhile is_lower r = []\<close> show ?thesis by (simp split: option.splits)
next
  case (Suc n)
  then have ne: \<open>takeWhile is_lower r \<noteq> []\<close> by auto
  have d: \<open>drop (Suc n) r = dropWhile is_lower r\<close>
    using Suc by (metis dropWhile_eq_drop)
  have t: \<open>take (Suc n) r = takeWhile is_lower r\<close>
    using Suc by (metis takeWhile_eq_take)
  have \<open>group1 n r = None\<close> using Suc by (simp add: group1_below)
  with Suc ne d t show ?thesis by (simp split: option.splits)
qed

lemma match_here_unfold:
  \<open>match_here prev s =
     (if at_bol prev then
        (case lit ticks s of
           None \<Rightarrow> None
         | Some r \<Rightarrow>
            (case tail_here (dropWhile is_lower r) of
               None \<Rightarrow> None
             | Some (code, r') \<Rightarrow>
                 Some (if takeWhile is_lower r = [] then None else Some (takeWhile is_lower r),
                       code, r')))
      else None)\<close>
  by (simp add: match_here_def group1_greedy split: option.splits)

subsection \<open>Lines\<close>

lemma lines_of_ne [simp]: \<open>lines_of s \<noteq> []\<close>
  by (induction s) (auto split: list.splits)

lemma lines_of_no_nl: \<open>l \<in> set (lines_of s) \<Longrightarrow> nl \<notin> set l\<close>
  by (induction s arbitrary: l) (auto split: if_splits list.splits)

lemma join_lines_Cons_Cons: \<open>join_lines ((c # l) # ls) = c # join_lines (l # ls)\<close>
  by (cases ls) auto

lemma join_lines_lines_of [simp]: \<open>join_lines (lines_of s) = s\<close>
proof (induction s)
  case Nil
  show ?case by simp
next
  case (Cons c cs)
  obtain l ls where eq: \<open>lines_of cs = l # ls\<close>
    by (cases \<open>lines_of cs\<close>) auto
  with Cons show ?case by (auto simp: join_lines_Cons_Cons)
qed

lemma lines_of_line: \<open>nl \<notin> set l \<Longrightarrow> lines_of l = [l]\<close>
  by (induction l) auto

lemma lines_of_append: \<open>nl \<notin> set l \<Longrightarrow> lines_of (l @ nl # s) = l # lines_of s\<close>
  by (induction l) auto

lemma lines_of_join_lines:
  \<open>ls \<noteq> [] \<Longrightarrow> list_all (\<lambda>l. nl \<notin> set l) ls \<Longrightarrow> lines_of (join_lines ls) = ls\<close>
  by (induction ls rule: join_lines.induct) (auto simp: lines_of_line lines_of_append)

lemma join_lines_snoc:
  \<open>ls \<noteq> [] \<Longrightarrow> join_lines (ls @ [b]) = join_lines ls @ [nl] @ b\<close>
  by (induction ls rule: join_lines.induct) auto

subsection \<open>Searching along a line\<close>

lemma shift_Nil [simp]: \<open>shift [] res = res\<close>
  by (cases res) (auto simp: shift_def)

lemma shift_shift [simp]: \<open>shift a (shift b res) = shift (a @ b) res\<close>
  by (cases res) (auto simp: shift_def)

lemma shift_None [simp]: \<open>shift t None = None\<close>
  by (simp add: shift_def)

lemma match_here_Nil [simp]: \<open>match_here prev [] = None\<close>
  by (simp add: match_here_def ticks_def)

lemma search_Nil [simp]: \<open>search prev [] = None\<close>
  by simp

lemma match_here_midline: \<open>c \<noteq> nl \<Longrightarrow> match_here (Some c) s = None\<close>
  by (simp add: match_here_def at_bol_def)

lemma match_here_nl [simp]: \<open>match_here prev (nl # s) = None\<close>
  by (simp add: match_here_def ticks_def nl_def)

lemma search_step:
  \<open>match_here prev (c # s) = None \<Longrightarrow> search prev (c # s) = shift [c] (search (Some c) s)\<close>
  by (auto simp: shift_def split: option.splits)

lemma search_hit:
  \<open>match_here prev s = Some (lang, code, r) \<Longrightarrow> search prev s = Some ([], (lang, code), r)\<close>
  by (cases s) auto

lemma search_midline:
  \<open>nl \<notin> set l \<Longrightarrow> c \<noteq> nl \<Longrightarrow>
   search (Some c) (l @ s) = shift l (search (last_prev (Some c) l) s)\<close>
proof (induction l arbitrary: c)
  case Nil
  show ?case by (simp add: last_prev_def)
next
  case (Cons d l)
  from Cons.prems have \<open>search (Some c) ((d # l) @ s) = shift [d] (search (Some d) (l @ s))\<close>
    by (simp add: search_step match_here_midline del: search.simps)
  also from Cons.prems have \<open>search (Some d) (l @ s) = shift l (search (last_prev (Some d) l) s)\<close>
    by (intro Cons.IH) auto
  finally show ?case by (simp add: last_prev_def)
qed

lemma search_line:
  assumes \<open>nl \<notin> set l\<close> and \<open>match_here prev (l @ s) = None\<close>
  shows \<open>search prev (l @ s) = shift l (search (last_prev prev l) s)\<close>
proof (cases l)
  case Nil
  then show ?thesis by (simp add: last_prev_def)
next
  case (Cons c l')
  with assms have \<open>search prev (l @ s) = shift [c] (search (Some c) (l' @ s))\<close>
    by (simp add: search_step del: search.simps)
  also from assms Cons have \<open>search (Some c) (l' @ s) = shift l' (search (last_prev (Some c) l') s)\<close>
    by (intro search_midline) auto
  finally show ?thesis using Cons by (simp add: last_prev_def)
qed

lemma search_skip_line:
  assumes \<open>nl \<notin> set l\<close> and \<open>match_here prev (l @ nl # s) = None\<close>
  shows \<open>search prev (l @ nl # s) = shift (l @ [nl]) (search (Some nl) s)\<close>
proof -
  have \<open>search (last_prev prev l) (nl # s) = shift [nl] (search (Some nl) s)\<close>
    by (simp add: search_step del: search.simps)
  with search_line [OF assms] show ?thesis by simp
qed

lemma search_last_line:
  assumes \<open>nl \<notin> set l\<close> and \<open>match_here prev l = None\<close>
  shows \<open>search prev l = None\<close>
  using search_line [of l prev \<open>[]\<close>] assms by simp

subsection \<open>The pattern at the start of a line\<close>

lemma tail_here_not_eol: \<open>c \<noteq> nl \<Longrightarrow> tail_here (c # s) = None\<close>
  by (simp add: tail_here_def at_eol_def)

lemma tail_here_Nil [simp]: \<open>tail_here [] = None\<close>
  by (simp add: tail_here_def)

lemma close_here_Some_iff:
  \<open>close_here prev s = Some r \<longleftrightarrow> at_bol prev \<and> s = ticks @ r \<and> at_eol r\<close>
  by (auto simp: close_here_def lit_iff split: option.splits)

lemma close_here_midline: \<open>c \<noteq> nl \<Longrightarrow> close_here (Some c) s = None\<close>
  by (simp add: close_here_def at_bol_def)

lemma line_starts_with_ticks:
  assumes \<open>l @ s = ticks @ r\<close> and \<open>at_eol s\<close>
  shows \<open>\<exists>t. l = ticks @ t \<and> r = t @ s\<close>
proof -
  from assms(1) obtain u where
    u: \<open>(l = ticks @ u \<and> u @ s = r) \<or> (l @ u = ticks \<and> s = u @ r)\<close>
    by (auto simp: append_eq_append_conv2)
  show ?thesis
  proof (cases \<open>l = ticks @ u \<and> u @ s = r\<close>)
    case True
    then show ?thesis by auto
  next
    case False
    with u have eq: \<open>l @ u = ticks\<close> \<open>s = u @ r\<close> by auto
    show ?thesis
    proof (cases u)
      case Nil
      with eq show ?thesis by auto
    next
      case (Cons c u')
      with eq assms(2) have \<open>c = nl\<close> by (simp add: at_eol_def)
      with Cons have \<open>nl \<in> set (l @ u)\<close> by simp
      then have \<open>nl \<in> set ticks\<close> by (simp only: eq(1))
      then show ?thesis by simp
    qed
  qed
qed

lemma match_here_plain_line:
  assumes \<open>nl \<notin> set l\<close> and \<open>\<not> opener_line l\<close> and \<open>at_eol s\<close>
  shows \<open>match_here prev (l @ s) = None\<close>
proof (cases \<open>lit ticks (l @ s)\<close>)
  case None
  then show ?thesis by (simp add: match_here_def)
next
  case (Some r)
  then have \<open>l @ s = ticks @ r\<close> by (simp add: lit_iff)
  from line_starts_with_ticks [OF this \<open>at_eol s\<close>]
  obtain t where t: \<open>l = ticks @ t\<close> \<open>r = t @ s\<close> by auto
  with \<open>\<not> opener_line l\<close> have \<open>\<not> list_all is_lower t\<close>
    by (simp add: opener_line_def)
  then obtain c where c: \<open>c \<in> set t\<close> \<open>\<not> is_lower c\<close>
    by (auto simp: list_all_iff)
  then have d: \<open>dropWhile is_lower r = dropWhile is_lower t @ s\<close>
    using t by (simp add: dropWhile_append1)
  from c have \<open>dropWhile is_lower t \<noteq> []\<close> by auto
  then obtain x xs where x: \<open>dropWhile is_lower t = x # xs\<close>
    by (cases \<open>dropWhile is_lower t\<close>) auto
  then have \<open>x \<in> set t\<close> by (metis list.set_intros(1) set_dropWhileD)
  with assms(1) t have \<open>x \<noteq> nl\<close> by auto
  with d x have \<open>tail_here (dropWhile is_lower r) = None\<close>
    by (simp add: tail_here_not_eol)
  with Some show ?thesis by (simp add: match_here_unfold)
qed

lemma lines_of_hd_ticks: \<open>at_eol r \<Longrightarrow> hd (lines_of (ticks @ r)) = ticks\<close>
proof (cases r)
  case Nil
  then show ?thesis by (simp add: lines_of_line)
next
  case (Cons c cs)
  assume \<open>at_eol r\<close>
  with Cons have \<open>r = nl # cs\<close> by (simp add: at_eol_def)
  then show ?thesis by (simp add: lines_of_append)
qed

lemma close_here_Nil [simp]: \<open>close_here prev [] = None\<close>
  by (simp add: close_here_def ticks_def)

lemma body_lazy_none:
  assumes \<open>ticks \<notin> set (tl (lines_of s))\<close> and \<open>c = nl \<longrightarrow> hd (lines_of s) \<noteq> ticks\<close>
  shows \<open>body_lazy acc (c # s) = None\<close>
  using assms
proof (induction s arbitrary: c acc)
  case Nil
  show ?case by simp
next
  case (Cons d s)
  have cl: \<open>close_here (Some c) (d # s) = None\<close>
  proof (cases \<open>close_here (Some c) (d # s)\<close>)
    case None
    then show ?thesis .
  next
    case (Some r)
    then have \<open>c = nl\<close> \<open>d # s = ticks @ r\<close> \<open>at_eol r\<close>
      by (auto simp: close_here_Some_iff at_bol_def)
    with lines_of_hd_ticks [of r] Cons.prems(2) show ?thesis by simp
  qed
  obtain l ls where ll: \<open>lines_of s = l # ls\<close>
    by (cases \<open>lines_of s\<close>) auto
  have \<open>body_lazy (acc @ [c]) (d # s) = None\<close>
  proof (rule Cons.IH)
    from Cons.prems(1) ll show \<open>ticks \<notin> set (tl (lines_of s))\<close>
      by (auto split: if_splits)
    from Cons.prems(1) ll show \<open>d = nl \<longrightarrow> hd (lines_of s) \<noteq> ticks\<close>
      by (auto split: if_splits)
  qed
  with cl show ?case by simp
qed

lemma match_here_unclosed:
  assumes \<open>opener_line l\<close>
    and \<open>s = [] \<or> (\<exists>s'. s = nl # s' \<and> ticks \<notin> set (lines_of s'))\<close>
  shows \<open>match_here prev (l @ s) = None\<close>
proof -
  from assms(1) obtain tag where tag: \<open>l = ticks @ tag\<close> \<open>list_all is_lower tag\<close>
    by (auto simp: opener_line_def lit_iff split: option.splits)
  then have d: \<open>dropWhile is_lower (tag @ s) = dropWhile is_lower s\<close>
    by (simp add: dropWhile_append2 list_all_iff)
  have \<open>tail_here (dropWhile is_lower s) = None\<close>
  proof (cases s)
    case Nil
    then show ?thesis by simp
  next
    case (Cons c s')
    with assms(2) have s': \<open>s = nl # s'\<close> \<open>ticks \<notin> set (lines_of s')\<close> by auto
    have \<open>body_lazy [] (nl # s') = None\<close>
    proof (rule body_lazy_none)
      from s'(2) show \<open>ticks \<notin> set (tl (lines_of s'))\<close>
        by (cases \<open>lines_of s'\<close>) auto
      from s'(2) show \<open>nl = nl \<longrightarrow> hd (lines_of s') \<noteq> ticks\<close>
        by (cases \<open>lines_of s'\<close>) auto
    qed
    with s' show ?thesis by (simp add: tail_here_def)
  qed
  with tag d show ?thesis by (simp add: match_here_unfold)
qed

lemma body_lazy_skip: \<open>nl \<notin> set l \<Longrightarrow> body_lazy acc (l @ s) = body_lazy (acc @ l) s\<close>
proof (induction l arbitrary: acc)
  case Nil
  show ?case by simp
next
  case (Cons c l)
  then have \<open>c \<noteq> nl\<close> by auto
  then have \<open>body_lazy acc ((c # l) @ s) = body_lazy (acc @ [c]) (l @ s)\<close>
    by (simp add: close_here_midline)
  also from Cons have \<open>\<dots> = body_lazy ((acc @ [c]) @ l) s\<close> by simp
  finally show ?case by simp
qed

lemma body_lazy_lines:
  assumes \<open>list_all (\<lambda>l. nl \<notin> set l \<and> l \<noteq> ticks) body\<close> and \<open>at_eol r\<close>
  shows \<open>body_lazy acc (nl # body_text body @ ticks @ r) = Some (acc @ nl # body_text body, r)\<close>
  using assms(1)
proof (induction body arbitrary: acc)
  case Nil
  from \<open>at_eol r\<close> have \<open>close_here (Some nl) (ticks @ r) = Some r\<close>
    by (simp add: close_here_Some_iff at_bol_def)
  then show ?case by (simp add: body_text_def)
next
  case (Cons l ls)
  then have l: \<open>nl \<notin> set l\<close> \<open>l \<noteq> ticks\<close> and ls: \<open>list_all (\<lambda>l. nl \<notin> set l \<and> l \<noteq> ticks) ls\<close>
    by auto
  let ?X = \<open>body_text ls @ ticks @ r\<close>
  have cl: \<open>close_here (Some nl) (l @ nl # ?X) = None\<close>
  proof (cases \<open>close_here (Some nl) (l @ nl # ?X)\<close>)
    case None
    then show ?thesis .
  next
    case (Some r')
    then have eq: \<open>l @ nl # ?X = ticks @ r'\<close> and \<open>at_eol r'\<close>
      by (auto simp: close_here_Some_iff)
    from line_starts_with_ticks [OF eq] obtain t where t: \<open>l = ticks @ t\<close> \<open>r' = t @ nl # ?X\<close>
      by (auto simp: at_eol_def)
    with \<open>at_eol r'\<close> l(1) have \<open>t = []\<close>
      by (cases t) (auto simp: at_eol_def)
    with t l(2) show ?thesis by simp
  qed
  have \<open>body_lazy acc (nl # body_text (l # ls) @ ticks @ r) = body_lazy acc (nl # l @ nl # ?X)\<close>
    by (simp add: body_text_def)
  also have \<open>\<dots> = body_lazy (acc @ [nl]) (l @ nl # ?X)\<close>
    using cl by simp
  also have \<open>\<dots> = body_lazy ((acc @ [nl]) @ l) (nl # ?X)\<close>
    using l(1) by (rule body_lazy_skip)
  also have \<open>\<dots> = Some (((acc @ [nl]) @ l) @ nl # body_text ls, r)\<close>
    using ls by (rule Cons.IH)
  finally show ?case by (simp add: body_text_def)
qed

lemma match_here_fence:
  assumes \<open>at_bol prev\<close> and \<open>list_all is_lower tag\<close>
    and \<open>list_all (\<lambda>l. nl \<notin> set l \<and> l \<noteq> ticks) body\<close> and \<open>at_eol r\<close>
  shows \<open>match_here prev (ticks @ tag @ nl # body_text body @ ticks @ r) =
           Some (if tag = [] then None else Some tag, nl # body_text body, r)\<close>
proof -
  let ?Y = \<open>body_text body @ ticks @ r\<close>
  from assms(2) have tw: \<open>takeWhile is_lower (tag @ nl # ?Y) = tag\<close>
    by (simp add: takeWhile_append2 list_all_iff)
  from assms(2) have dw: \<open>dropWhile is_lower (tag @ nl # ?Y) = nl # ?Y\<close>
    by (simp add: dropWhile_append2 list_all_iff)
  have \<open>tail_here (nl # ?Y) = Some (nl # body_text body, r)\<close>
    using body_lazy_lines [OF assms(3,4), of \<open>[]\<close>] by (simp add: tail_here_def at_eol_def)
  with tw dw assms(1) show ?thesis
    by (simp add: match_here_unfold)
qed

lemma body_lazy_sound:
  \<open>body_lazy acc s = Some (code, r) \<Longrightarrow>
   \<exists>b. code = acc @ b \<and> b \<noteq> [] \<and> s = b @ ticks @ r \<and> last b = nl \<and> at_eol r\<close>
proof (induction s arbitrary: acc)
  case Nil
  then show ?case by simp
next
  case (Cons c cs)
  show ?case
  proof (cases \<open>close_here (Some c) cs\<close>)
    case None
    with Cons.prems have \<open>body_lazy (acc @ [c]) cs = Some (code, r)\<close> by simp
    from Cons.IH [OF this] obtain b where
      \<open>code = (acc @ [c]) @ b\<close> \<open>cs = b @ ticks @ r\<close> \<open>last b = nl\<close> \<open>at_eol r\<close> \<open>b \<noteq> []\<close>
      by auto
    then have \<open>code = acc @ (c # b) \<and> c # b \<noteq> [] \<and> c # cs = (c # b) @ ticks @ r \<and>
       last (c # b) = nl \<and> at_eol r\<close> by simp
    then show ?thesis by blast
  next
    case (Some r')
    with Cons.prems have \<open>code = acc @ [c]\<close> \<open>r' = r\<close> by auto
    with Some have \<open>code = acc @ [c] \<and> [c] \<noteq> [] \<and> c # cs = [c] @ ticks @ r \<and>
       last [c] = nl \<and> at_eol r\<close>
      by (auto simp: close_here_Some_iff at_bol_def)
    then show ?thesis by blast
  qed
qed

lemma match_here_sound:
  assumes \<open>match_here prev s = Some (lang, code, r)\<close>
  shows \<open>at_bol prev \<and>
         (\<exists>tag. list_all is_lower tag \<and> lang = (if tag = [] then None else Some tag) \<and>
                s = ticks @ tag @ code @ ticks @ r) \<and>
         code \<noteq> [] \<and> hd code = nl \<and> last code = nl \<and> at_eol r\<close>
proof -
  from assms have bol: \<open>at_bol prev\<close>
    by (auto simp: match_here_def split: if_splits)
  from assms bol obtain x where x: \<open>s = ticks @ x\<close>
    by (auto simp: match_here_def lit_iff split: option.splits)
  let ?tag = \<open>takeWhile is_lower x\<close>
  from assms bol x have th: \<open>tail_here (dropWhile is_lower x) = Some (code, r)\<close>
    and lang: \<open>lang = (if ?tag = [] then None else Some ?tag)\<close>
    by (auto simp: match_here_unfold split: option.splits)
  then have eol: \<open>at_eol (dropWhile is_lower x)\<close>
    and bl: \<open>body_lazy [] (dropWhile is_lower x) = Some (code, r)\<close>
    by (auto simp: tail_here_def split: if_splits)
  from body_lazy_sound [OF bl] have b: \<open>code \<noteq> []\<close> \<open>dropWhile is_lower x = code @ ticks @ r\<close>
    \<open>last code = nl\<close> \<open>at_eol r\<close> by auto
  with eol have \<open>hd code = nl\<close>
    by (cases code) (auto simp: at_eol_def)
  moreover have \<open>s = ticks @ ?tag @ code @ ticks @ r\<close>
    using x b(2) by (metis takeWhile_dropWhile_id)
  moreover have \<open>list_all is_lower ?tag\<close>
    by (auto simp: list_all_iff dest: set_takeWhileD)
  ultimately show ?thesis using bol lang b by blast
qed

subsection \<open>Texts without a closed fence\<close>

lemma match_here_line_start:
  assumes \<open>nl \<notin> set l\<close> and \<open>opener_line l \<longrightarrow> ticks \<notin> set ls\<close>
    and \<open>list_all (\<lambda>l. nl \<notin> set l) ls\<close>
    and \<open>s = (if ls = [] then [] else nl # join_lines ls)\<close>
  shows \<open>match_here prev (l @ s) = None\<close>
proof (cases \<open>opener_line l\<close>)
  case True
  with assms(2) have \<open>ticks \<notin> set ls\<close> by simp
  with assms(3,4) have \<open>s = [] \<or> (\<exists>s'. s = nl # s' \<and> ticks \<notin> set (lines_of s'))\<close>
    by (auto simp: lines_of_join_lines)
  with True show ?thesis by (rule match_here_unclosed)
next
  case False
  from assms(4) have \<open>at_eol s\<close> by (simp add: at_eol_def)
  with assms(1) False show ?thesis by (rule match_here_plain_line)
qed

lemma search_no_closed_fence:
  \<open>list_all (\<lambda>l. nl \<notin> set l) ls \<Longrightarrow> no_closed_fence ls \<Longrightarrow> search prev (join_lines ls) = None\<close>
proof (induction ls arbitrary: prev rule: join_lines.induct)
  case 1
  show ?case by simp
next
  case (2 x)
  then have \<open>match_here prev (x @ []) = None\<close>
    by (intro match_here_line_start [where ls = \<open>[]\<close>]) auto
  with 2 show ?case by (simp add: search_last_line del: search.simps)
next
  case (3 x y ys)
  then have m: \<open>match_here prev (x @ nl # join_lines (y # ys)) = None\<close>
    by (intro match_here_line_start [where ls = \<open>y # ys\<close>]) auto
  from 3 have \<open>search (Some nl) (join_lines (y # ys)) = None\<close> by simp
  moreover from 3 have \<open>nl \<notin> set x\<close> by simp
  ultimately show ?case using search_skip_line [OF _ m] by simp
qed

lemma search_unclosed: \<open>no_closed_fence (lines_of md) \<Longrightarrow> search prev md = None\<close>
  using search_no_closed_fence [of \<open>lines_of md\<close> prev]
  by (simp add: list_all_iff lines_of_no_nl)

lemma no_opener_no_closed_fence: \<open>list_all (\<lambda>l. \<not> opener_line l) (butlast ls) \<Longrightarrow> no_closed_fence ls\<close>
  by (induction ls) (auto split: if_splits)

lemma CR_not_opener:
  assumes \<open>l \<noteq> []\<close> and \<open>last l = CR\<close>
  shows \<open>\<not> opener_line l\<close>
proof
  assume \<open>opener_line l\<close>
  then obtain tag where tag: \<open>l = ticks @ tag\<close> \<open>list_all is_lower tag\<close>
    by (auto simp: opener_line_def lit_iff split: option.splits)
  show False
  proof (cases \<open>tag = []\<close>)
    case True
    with tag assms(2) show False by (simp add: ticks_def CR_def)
  next
    case False
    with tag have \<open>is_lower (last l)\<close> by (simp add: list_all_iff)
    with assms(2) show False by (simp add: is_lower_def CR_def)
  qed
qed

lemma search_None_positions:
  assumes \<open>\<And>k. k \<le> length s \<Longrightarrow>
     match_here (if k = 0 then prev else Some (s ! (k - 1))) (drop k s) = None\<close>
  shows \<open>search prev s = None\<close>
  using assms
proof (induction s arbitrary: prev)
  case Nil
  show ?case by simp
next
  case (Cons c cs)
  from Cons.prems [of 0] have m: \<open>match_here prev (c # cs) = None\<close> by simp
  have \<open>search (Some c) cs = None\<close>
  proof (rule Cons.IH)
    fix k assume \<open>k \<le> length cs\<close>
    with Cons.prems [of \<open>Suc k\<close>]
    show \<open>match_here (if k = 0 then Some c else Some (cs ! (k - 1))) (drop k cs) = None\<close>
      by (cases k) auto
  qed
  with m show ?case by simp
qed

lemma no_opener_lines: \<open>list_all (\<lambda>l. \<not> opener_line l) ls \<Longrightarrow> no_closed_fence ls\<close>
  by (induction ls) auto

lemma has_fence_iff: \<open>has_fence md \<longleftrightarrow> (\<exists>i\<le>length md. matches_at md i)\<close>
proof -
  have \<open>set [0..<Suc (length md)] = {i. i \<le> length md}\<close> by auto
  then show ?thesis unfolding has_fence_def list_ex_iff by blast
qed

subsection \<open>Substitution over a well-formed document\<close>

lemma subx_None: \<open>search prev s = None \<Longrightarrow> subx prev s = [Slice s]\<close>
  by (simp add: subx.simps)

lemma subx_hit:
  \<open>match_here prev s = Some (lang, code, r) \<Longrightarrow>
   subx prev s = Slice [] # Found (lang, code) # subx (Some (CHR 0x60)) r\<close>
  by (simp add: subx.simps [of prev s] search_hit)

lemma subx_shift:
  \<open>search prev (t @ s) = shift t (search p s) \<Longrightarrow> subx prev (t @ s) = prepend_slice t (subx p s)\<close>
  by (cases \<open>search p s\<close>) (auto simp: subx.simps [of prev \<open>t @ s\<close>] subx.simps [of p s] shift_def)

lemma emit_prepend_slice [simp]:
  \<open>concat (map (emit L) (prepend_slice t ps)) = t @ concat (map (emit L) ps)\<close>
  by (induction t ps rule: prepend_slice.induct) auto

lemma found_prepend_slice [simp]: \<open>found_groups (prepend_slice t ps) = found_groups ps\<close>
  by (induction t ps rule: prepend_slice.induct) auto

lemma md_highlight_no_match: \<open>search None md = None \<Longrightarrow> md_highlight L md = md\<close>
  by (simp add: md_highlight_def subx_None)

lemma subx_after_fence_end: \<open>subx (Some (CHR 0x60)) [] = [Slice []]\<close>
  by (simp add: subx_None)

lemma subx_newline: \<open>subx prev (nl # s) = prepend_slice [nl] (subx (Some nl) s)\<close>
  using subx_shift [of prev \<open>[nl]\<close> s \<open>Some nl\<close>] by (simp add: search_step del: search.simps)

lemma subx_plain_line:
  assumes \<open>nl \<notin> set l\<close> and \<open>\<not> opener_line l\<close>
  shows \<open>subx prev (l @ nl # s) = prepend_slice (l @ [nl]) (subx (Some nl) s)\<close>
proof -
  have \<open>match_here prev (l @ nl # s) = None\<close>
    using assms by (intro match_here_plain_line) (auto simp: at_eol_def)
  from search_skip_line [OF assms(1) this] subx_shift [of prev \<open>l @ [nl]\<close> s \<open>Some nl\<close>]
  show ?thesis by simp
qed

lemma subx_last_plain_line:
  assumes \<open>nl \<notin> set l\<close> and \<open>\<not> opener_line l\<close>
  shows \<open>subx prev l = [Slice l]\<close>
proof -
  have \<open>match_here prev (l @ []) = None\<close>
    using assms by (intro match_here_plain_line) (auto simp: at_eol_def)
  with assms(1) show ?thesis by (simp add: subx_None search_last_line del: search.simps)
qed

lemma subx_fence:
  assumes \<open>at_bol prev\<close> and \<open>wf_item (Fence tag body)\<close> and \<open>at_eol r\<close>
  shows \<open>subx prev (source_of (Fence tag body) @ r) =
           Slice [] # Found (groups_of tag body) # subx (Some (CHR 0x60)) r\<close>
proof -
  from assms have \<open>match_here prev (ticks @ tag @ nl # body_text body @ ticks @ r) =
      Some (if tag = [] then None else Some tag, nl # body_text body, r)\<close>
    by (intro match_here_fence) auto
  from subx_hit [OF this] show ?thesis by (simp add: groups_of_def)
qed

lemma subx_document:
  assumes \<open>list_all wf_item doc\<close> and \<open>at_bol prev\<close>
  shows \<open>concat (map (emit L) (subx prev (render doc))) = join_lines (map (highlighted L) doc) \<and>
         found_groups (subx prev (render doc)) = fences doc\<close>
  using assms
proof (induction doc arbitrary: prev rule: induct_list012)
  case 1
  show ?case by (simp add: render_def subx_None)
next
  case (2 x)
  show ?case
  proof (cases x)
    case (Line l)
    with 2 show ?thesis by (simp add: render_def subx_last_plain_line)
  next
    case (Fence tag body)
    with 2 have \<open>subx prev (source_of (Fence tag body) @ []) =
        Slice [] # Found (groups_of tag body) # subx (Some (CHR 0x60)) []\<close>
      by (intro subx_fence) (auto simp: at_eol_def)
    with Fence show ?thesis by (simp add: render_def subx_after_fence_end)
  qed
next
  case (3 x y zs)
  let ?rest = \<open>render (y # zs)\<close>
  from 3 have IH: \<open>concat (map (emit L) (subx (Some nl) ?rest)) = join_lines (map (highlighted L) (y # zs)) \<and>
      found_groups (subx (Some nl) ?rest) = fences (y # zs)\<close>
    by (simp add: at_bol_def)
  have r: \<open>render (x # y # zs) = source_of x @ nl # ?rest\<close>
    by (simp add: render_def)
  show ?case
  proof (cases x)
    case (Line l)
    with 3 have \<open>subx prev (l @ nl # ?rest) = prepend_slice (l @ [nl]) (subx (Some nl) ?rest)\<close>
      by (intro subx_plain_line) auto
    with Line IH r show ?thesis by simp
  next
    case (Fence tag body)
    with 3 have \<open>subx prev (source_of (Fence tag body) @ nl # ?rest) =
        Slice [] # Found (groups_of tag body) # subx (Some (CHR 0x60)) (nl # ?rest)\<close>
      by (intro subx_fence) (auto simp: at_eol_def)
    with Fence IH r show ?thesis by (simp add: subx_newline)
  qed
qed

section \<open>Properties\<close>

subsection \<open>Every fence becomes one block, the rest stays\<close>

text \<open>
  C1. Take a document of well-formed items with \<open>N\<close> fences among them: plain lines that
  are not fence lines, and fences with a lowercase tag or none whose body holds no closing
  line. Then \<open>md_highlight\<close> finds exactly the \<open>N\<close> fences, in document order and with the
  expected groups, and its output is the document with each fence replaced by the one
  block \<open>md_codeblock\<close> returns for it; every plain line and every line feed between two
  items is in the output as it was in the input.
\<close>

theorem fence_count_preserved:
  assumes \<open>list_all wf_item doc\<close> and \<open>length (fences doc) = N\<close>
  shows \<open>md_highlight L (render doc) = join_lines (map (highlighted L) doc) \<and>
         found_groups (subx None (render doc)) = fences doc \<and>
         length (found_groups (subx None (render doc))) = N\<close>
proof -
  have \<open>at_bol None\<close> by (simp add: at_bol_def)
  from subx_document [OF assms(1) this, of L] assms(2) show ?thesis
    by (simp add: md_highlight_def)
qed

theorem fence_count_preserved_witness:
  \<open>list_all wf_item
     [Line ''# Title'', Line [], Fence ''python'' [''print("hi")''], Line [], Line ''Some text''] \<and>
   length (fences
     [Line ''# Title'', Line [], Fence ''python'' [''print("hi")''], Line [], Line ''Some text'']) = 1 \<and>
   render
     [Line ''# Title'', Line [], Fence ''python'' [''print("hi")''], Line [], Line ''Some text''] =
     ''# Title'' @ [nl, nl] @ ''```python'' @ [nl] @ ''print("hi")'' @ [nl] @ ''```'' @ [nl, nl]
       @ ''Some text'' \<and>
   md_highlight demo_libs
     (''# Title'' @ [nl, nl] @ ''```python'' @ [nl] @ ''print("hi")'' @ [nl] @ ''```'' @ [nl, nl]
       @ ''Some text'') =
     ''# Title'' @ [nl, nl] @ ''<pre class="highlight"><code class="language-python">'' @ [nl]
       @ ''print("hi")'' @ [nl] @ ''</code></pre>'' @ [nl, nl] @ ''Some text'' \<and>
   found_groups (subx None
     (''# Title'' @ [nl, nl] @ ''```python'' @ [nl] @ ''print("hi")'' @ [nl] @ ''```'' @ [nl, nl]
       @ ''Some text'')) =
     [(Some ''python'', [nl] @ ''print("hi")'' @ [nl])]\<close>
proof -
  let ?doc = \<open>[Line ''# Title'', Line [], Fence ''python'' [''print("hi")''], Line [], Line ''Some text'']\<close>
  have wf: \<open>list_all wf_item ?doc\<close>
    by (simp add: opener_line_def ticks_def nl_def is_lower_def)
  have n: \<open>length (fences ?doc) = 1\<close> by simp
  have r: \<open>render ?doc =
     ''# Title'' @ [nl, nl] @ ''```python'' @ [nl] @ ''print("hi")'' @ [nl] @ ''```'' @ [nl, nl]
       @ ''Some text''\<close>
    by (simp add: render_def body_text_def ticks_def)
  from fence_count_preserved [OF wf n, of demo_libs] wf n r show ?thesis
    by (simp add: groups_of_def body_text_def md_codeblock_def format_str_def demo_libs_def)
qed

subsection \<open>The class attribute of the code element\<close>

text \<open>
  C2. A match whose first group is \<^verbatim>\<open>python\<close> gets the class \<^verbatim>\<open>language-python\<close>. A fence
  without a tag leaves the first group unset, and the f-string then writes
  \<^verbatim>\<open>language-None\<close>, not \<^verbatim>\<open>language-\<close>: the three-line document made of a bare opening
  line, the line \<^verbatim>\<open>x\<close> and a closing line shows it.
\<close>

theorem language_class_of_fence:
  \<open>md_codeblock L (Some ''python'', code) =
     ''<pre class="highlight"><code class="language-python">''
       @ highlight L code
           (case get_lexer_by_name L (Some ''python'') of Some lx \<Rightarrow> lx | None \<Rightarrow> TextLexer L)
       @ ''</code></pre>'' \<and>
   md_codeblock L (None, code) =
     ''<pre class="highlight"><code class="language-None">''
       @ highlight L code
           (case get_lexer_by_name L None of Some lx \<Rightarrow> lx | None \<Rightarrow> TextLexer L)
       @ ''</code></pre>'' \<and>
   md_highlight L (''```'' @ [nl] @ ''x'' @ [nl] @ ''```'') =
     ''<pre class="highlight"><code class="language-None">''
       @ highlight L ([nl] @ ''x'' @ [nl])
           (case get_lexer_by_name L None of Some lx \<Rightarrow> lx | None \<Rightarrow> TextLexer L)
       @ ''</code></pre>''\<close>
proof -
  have \<open>subx None (''```'' @ [nl] @ ''x'' @ [nl] @ ''```'') =
      [Slice [], Found (None, [nl] @ ''x'' @ [nl]), Slice []]\<close>
    by (simp add: subx.simps matcher_defs)
  then show ?thesis
    by (simp add: md_highlight_def md_codeblock_def format_str_def)
qed

subsection \<open>The first closing line ends the block\<close>

text \<open>
  C3. When the pattern is tried at the start of an opening fence line, the match ends at
  the first later line that is three backticks alone: the second group is the text up to
  that line, whatever follows it, further closing lines included. So a document made of
  a fence, one or more plain lines and a second fence gives exactly two matches, one for
  each fence, and the output is the first block, the plain lines and the second block.
\<close>

theorem first_closing_line_ends_block:
  \<open>(at_bol prev \<and> list_all is_lower tag \<and> list_all (\<lambda>l. nl \<notin> set l \<and> l \<noteq> ticks) body \<and>
    at_eol rest \<longrightarrow>
      match_here prev (ticks @ tag @ [nl] @ body_text body @ ticks @ rest) =
        Some (if tag = [] then None else Some tag, [nl] @ body_text body, rest)) \<and>
   (wf_item (Fence ta ba) \<and> list_all wf_item (map Line mid) \<and> mid \<noteq> [] \<and> wf_item (Fence tb bb) \<longrightarrow>
      found_groups (subx None (render (Fence ta ba # map Line mid @ [Fence tb bb]))) =
        [groups_of ta ba, groups_of tb bb] \<and>
      md_highlight L (render (Fence ta ba # map Line mid @ [Fence tb bb])) =
        md_codeblock L (groups_of ta ba) @ [nl] @ join_lines mid @ [nl]
          @ md_codeblock L (groups_of tb bb))\<close>
proof (intro conjI impI)
  assume \<open>at_bol prev \<and> list_all is_lower tag \<and>
    list_all (\<lambda>l. nl \<notin> set l \<and> l \<noteq> ticks) body \<and> at_eol rest\<close>
  then show \<open>match_here prev (ticks @ tag @ [nl] @ body_text body @ ticks @ rest) =
      Some (if tag = [] then None else Some tag, [nl] @ body_text body, rest)\<close>
    using match_here_fence [of prev tag body rest] by simp
next
  let ?doc = \<open>Fence ta ba # map Line mid @ [Fence tb bb]\<close>
  assume a: \<open>wf_item (Fence ta ba) \<and> list_all wf_item (map Line mid) \<and> mid \<noteq> [] \<and>
    wf_item (Fence tb bb)\<close>
  then have wf: \<open>list_all wf_item ?doc\<close> by simp
  have bol: \<open>at_bol None\<close> by (simp add: at_bol_def)
  have f: \<open>fences (map Line mid @ xs) = fences xs\<close> for xs
    by (induction mid) auto
  from subx_document [OF wf bol, of L] f [of \<open>[Fence tb bb]\<close>]
  show \<open>found_groups (subx None (render ?doc)) = [groups_of ta ba, groups_of tb bb]\<close>
    by simp
  from a obtain m ms where m: \<open>mid = m # ms\<close> by (cases mid) auto
  have \<open>join_lines (map (highlighted L) ?doc)
      = md_codeblock L (groups_of ta ba) @ [nl] @ join_lines (map (highlighted L) (map Line mid) @ [md_codeblock L (groups_of tb bb)])\<close>
    using m by simp
  also have \<open>map (highlighted L) (map Line mid) = mid\<close>
    by (induction mid) auto
  also have \<open>join_lines (mid @ [md_codeblock L (groups_of tb bb)]) =
      join_lines mid @ [nl] @ md_codeblock L (groups_of tb bb)\<close>
    using a by (intro join_lines_snoc) auto
  finally show \<open>md_highlight L (render ?doc) =
      md_codeblock L (groups_of ta ba) @ [nl] @ join_lines mid @ [nl]
        @ md_codeblock L (groups_of tb bb)\<close>
    using subx_document [OF wf bol, of L] by (simp add: md_highlight_def)
qed

theorem first_closing_line_ends_block_witness:
  \<open>at_bol None \<and> list_all is_lower ''js'' \<and>
   list_all (\<lambda>l. nl \<notin> set l \<and> l \<noteq> ticks) [''a'', ''b ```''] \<and>
   at_eol ([nl] @ ''c'' @ [nl] @ ''```'') \<and>
   match_here None
     (''```js'' @ [nl] @ ''a'' @ [nl] @ ''b ```'' @ [nl] @ ''```'' @ [nl] @ ''c'' @ [nl] @ ''```'') =
     Some (Some ''js'', [nl] @ ''a'' @ [nl] @ ''b ```'' @ [nl], [nl] @ ''c'' @ [nl] @ ''```'') \<and>
   wf_item (Fence ''js'' [''a'']) \<and> list_all wf_item (map Line [''text'']) \<and>
   wf_item (Fence [] [''b'']) \<and>
   render (Fence ''js'' [''a''] # map Line [''text''] @ [Fence [] [''b'']]) =
     ''```js'' @ [nl] @ ''a'' @ [nl] @ ''```'' @ [nl] @ ''text'' @ [nl] @ ''```'' @ [nl] @ ''b''
       @ [nl] @ ''```'' \<and>
   found_groups (subx None
     (''```js'' @ [nl] @ ''a'' @ [nl] @ ''```'' @ [nl] @ ''text'' @ [nl] @ ''```'' @ [nl] @ ''b''
       @ [nl] @ ''```'')) =
     [(Some ''js'', [nl] @ ''a'' @ [nl]), (None, [nl] @ ''b'' @ [nl])]\<close>
proof -
  have h1: \<open>at_bol None \<and> list_all is_lower ''js'' \<and>
      list_all (\<lambda>l. nl \<notin> set l \<and> l \<noteq> ticks) [''a'', ''b ```''] \<and>
      at_eol ([nl] @ ''c'' @ [nl] @ ''```'')\<close>
    by (simp add: at_bol_def at_eol_def is_lower_def nl_def ticks_def)
  have h2: \<open>wf_item (Fence ''js'' [''a'']) \<and> list_all wf_item (map Line [''text'']) \<and>
      [''text''] \<noteq> [] \<and> wf_item (Fence [] [''b''])\<close>
    by (simp add: opener_line_def is_lower_def nl_def ticks_def)
  have r: \<open>render (Fence ''js'' [''a''] # map Line [''text''] @ [Fence [] [''b'']]) =
     ''```js'' @ [nl] @ ''a'' @ [nl] @ ''```'' @ [nl] @ ''text'' @ [nl] @ ''```'' @ [nl] @ ''b''
       @ [nl] @ ''```''\<close>
    by (simp add: render_def body_text_def ticks_def)
  from first_closing_line_ends_block [where prev = None and tag = \<open>''js''\<close>
      and body = \<open>[''a'', ''b ```'']\<close> and rest = \<open>[nl] @ ''c'' @ [nl] @ ''```''\<close>
      and ta = \<open>''js''\<close> and ba = \<open>[''a'']\<close> and mid = \<open>[''text'']\<close> and tb = \<open>[]\<close>
      and bb = \<open>[''b'']\<close> and L = demo_libs] h1 h2 r
  show ?thesis
    by (simp add: body_text_def groups_of_def ticks_def)
qed

subsection \<open>Unknown language names\<close>

text \<open>
  C4. When the lexer lookup fails for the tag of a fence, \<open>md_codeblock\<close> still returns
  the wrapped block: the code is highlighted with the plain-text lexer and the class
  attribute carries the tag as it was written. For a document that is one such fence,
  this block is the whole output of \<open>md_highlight\<close>.
\<close>

theorem unknown_language_fallback:
  assumes \<open>get_lexer_by_name L (Some lang) = None\<close>
  shows \<open>md_codeblock L (Some lang, code) =
           ''<pre class="highlight"><code class="language-'' @ lang @ ''">''
             @ highlight L code (TextLexer L) @ ''</code></pre>'' \<and>
         (lang \<noteq> [] \<and> wf_item (Fence lang body) \<longrightarrow>
            md_highlight L (render [Fence lang body]) =
              ''<pre class="highlight"><code class="language-'' @ lang @ ''">''
                @ highlight L ([nl] @ body_text body) (TextLexer L) @ ''</code></pre>'')\<close>
proof (intro conjI impI)
  show block: \<open>md_codeblock L (Some lang, code) =
      ''<pre class="highlight"><code class="language-'' @ lang @ ''">''
        @ highlight L code (TextLexer L) @ ''</code></pre>''\<close> for code
    using assms by (simp add: md_codeblock_def format_str_def)
  assume a: \<open>lang \<noteq> [] \<and> wf_item (Fence lang body)\<close>
  then have wf: \<open>list_all wf_item [Fence lang body]\<close> by simp
  have bol: \<open>at_bol None\<close> by (simp add: at_bol_def)
  from subx_document [OF wf bol, of L] a
  have \<open>md_highlight L (render [Fence lang body]) =
      md_codeblock L (Some lang, [nl] @ body_text body)\<close>
    by (simp add: md_highlight_def groups_of_def)
  with block show \<open>md_highlight L (render [Fence lang body]) =
      ''<pre class="highlight"><code class="language-'' @ lang @ ''">''
        @ highlight L ([nl] @ body_text body) (TextLexer L) @ ''</code></pre>''\<close>
    by simp
qed

theorem unknown_language_fallback_witness:
  \<open>get_lexer_by_name demo_libs (Some ''zzzzz'') = None \<and>
   md_codeblock demo_libs (Some ''zzzzz'', ''x = 1'') =
     ''<pre class="highlight"><code class="language-zzzzz">x = 1</code></pre>'' \<and>
   wf_item (Fence ''zzzzz'' [''x = 1'']) \<and>
   render [Fence ''zzzzz'' [''x = 1'']] = ''```zzzzz'' @ [nl] @ ''x = 1'' @ [nl] @ ''```'' \<and>
   md_highlight demo_libs (''```zzzzz'' @ [nl] @ ''x = 1'' @ [nl] @ ''```'') =
     ''<pre class="highlight"><code class="language-zzzzz">'' @ [nl] @ ''x = 1'' @ [nl]
       @ ''</code></pre>''\<close>
proof -
  have h: \<open>get_lexer_by_name demo_libs (Some ''zzzzz'') = None\<close>
    by (simp add: demo_libs_def)
  have wf: \<open>''zzzzz'' \<noteq> [] \<and> wf_item (Fence ''zzzzz'' [''x = 1''])\<close>
    by (simp add: is_lower_def nl_def ticks_def)
  have r: \<open>render [Fence ''zzzzz'' [''x = 1'']] = ''```zzzzz'' @ [nl] @ ''x = 1'' @ [nl] @ ''```''\<close>
    by (simp add: render_def body_text_def ticks_def)
  from unknown_language_fallback [OF h, of \<open>''x = 1''\<close> \<open>[''x = 1'']\<close>] h wf r show ?thesis
    by (simp add: demo_libs_def body_text_def)
qed

subsection \<open>The order of the stages\<close>

text \<open>
  C5. For a file holding the text \<open>md\<close>, \<open>md2kb\<close> prints
  \<open>tidy_html (md_parse (md_highlight md))\<close>: the fences are replaced first, the whole
  result is rendered with \<open>CMARK_FLAGS\<close>, and the whole rendering is tidied.
\<close>

theorem pipeline_order:
  assumes \<open>fs filepath = Some md\<close>
  shows \<open>md2kb L fs filepath = Inr (print (tidy_html L (md_parse L (md_highlight L md)))) \<and>
         md_highlight_and_parse L md = md_parse L (md_highlight L md) \<and>
         md_parse L (md_highlight L md) = markdown_to_html L (md_highlight L md) CMARK_FLAGS\<close>
  using assms by (simp add: md2kb_def md_highlight_and_parse_def md_parse_def)

theorem pipeline_order_witness:
  \<open>[''a.md'' \<mapsto> ''hi''] ''a.md'' = Some ''hi'' \<and>
   md2kb demo_libs [''a.md'' \<mapsto> ''hi''] ''a.md'' = Inr (''  <p>hi</p>'' @ [nl]) \<and>
   md_highlight demo_libs ''hi'' = ''hi''\<close>
proof -
  have h: \<open>[''a.md'' \<mapsto> ''hi''] ''a.md'' = Some ''hi''\<close> by simp
  have m: \<open>md_highlight demo_libs ''hi'' = ''hi''\<close>
    by (simp add: md_highlight_def subx.simps matcher_defs)
  from pipeline_order [of \<open>[''a.md'' \<mapsto> ''hi'']\<close> \<open>''a.md''\<close> \<open>''hi''\<close> demo_libs, OF h] h m
  show ?thesis
    by (simp add: tidy_html_def md_parse_def print_def demo_libs_def)
qed

subsection \<open>Texts without a fence\<close>

text \<open>
  C6. A text in which the pattern matches at no position has no fence to replace, and
  \<open>md_highlight\<close> returns it as it is.
\<close>

theorem no_fence_identity:
  assumes \<open>\<not> has_fence md\<close>
  shows \<open>found_groups (subx None md) = [] \<and> md_highlight L md = md\<close>
proof -
  have \<open>search None md = None\<close>
  proof (rule search_None_positions)
    fix k assume \<open>k \<le> length md\<close>
    with assms have \<open>\<not> matches_at md k\<close> by (auto simp: has_fence_iff)
    then show \<open>match_here (if k = 0 then None else Some (md ! (k - 1))) (drop k md) = None\<close>
      unfolding matches_at_def by blast
  qed
  then show ?thesis by (simp add: md_highlight_no_match subx_None)
qed

theorem no_fence_identity_witness:
  \<open>\<not> has_fence (''say ``` here'' @ [nl] @ ''done'') \<and>
   md_highlight demo_libs (''say ``` here'' @ [nl] @ ''done'') = ''say ``` here'' @ [nl] @ ''done''\<close>
proof -
  have h: \<open>\<not> has_fence (''say ``` here'' @ [nl] @ ''done'')\<close>
    by (simp add: has_fence_def matches_at_def matcher_defs upt_rec)
  from no_fence_identity [OF h, of demo_libs] h show ?thesis by simp
qed

subsection \<open>Fence delimiters are whole lines\<close>

text \<open>
  C7. Wherever the pattern matches, the opening backticks stand at the start of a line
  and their line is the three backticks and a lowercase tag (or none) and nothing else;
  the closing backticks stand at the start of a line and end it. Three backticks
  elsewhere, after other text on their line or before text that is not a lowercase tag,
  open and close nothing: a text none of whose lines is an opening or closing fence line
  gives no match and is returned as it is, and in a well-formed document the plain lines,
  with whatever backticks they hold, are in the output as they were.
\<close>

theorem fence_delimiters_full_lines:
  \<open>(match_here prev s = Some (lang, code, r) \<longrightarrow>
      at_bol prev \<and>
      (\<exists>tag. list_all is_lower tag \<and> lang = (if tag = [] then None else Some tag) \<and>
             s = ticks @ tag @ code @ ticks @ r) \<and>
      code \<noteq> [] \<and> hd code = nl \<and> last code = nl \<and> at_eol r) \<and>
   (list_all (\<lambda>l. \<not> opener_line l) (lines_of md) \<longrightarrow>
      found_groups (subx None md) = [] \<and> md_highlight L md = md) \<and>
   (list_all wf_item doc \<longrightarrow>
      md_highlight L (render doc) = join_lines (map (highlighted L) doc))\<close>
proof (intro conjI impI)
  assume \<open>list_all (\<lambda>l. \<not> opener_line l) (lines_of md)\<close>
  then have \<open>search None md = None\<close>
    by (intro search_unclosed no_opener_lines)
  then show \<open>found_groups (subx None md) = []\<close> \<open>md_highlight L md = md\<close>
    by (simp_all add: md_highlight_no_match subx_None)
next
  assume wf: \<open>list_all wf_item doc\<close>
  have bol: \<open>at_bol None\<close> by (simp add: at_bol_def)
  from subx_document [OF wf bol, of L]
  show \<open>md_highlight L (render doc) = join_lines (map (highlighted L) doc)\<close>
    by (simp add: md_highlight_def)
qed (use match_here_sound [of prev s lang code r] in auto)

theorem fence_delimiters_full_lines_witness:
  \<open>match_here None (''```py'' @ [nl] @ ''x'' @ [nl] @ ''```'') =
     Some (Some ''py'', [nl] @ ''x'' @ [nl], []) \<and>
   at_bol None \<and>
   (\<exists>tag. list_all is_lower tag \<and> Some ''py'' = (if tag = [] then None else Some tag) \<and>
      ''```py'' @ [nl] @ ''x'' @ [nl] @ ''```'' = ticks @ tag @ ([nl] @ ''x'' @ [nl]) @ ticks @ []) \<and>
   hd ([nl] @ ''x'') = nl \<and>
   list_all (\<lambda>l. \<not> opener_line l)
     (lines_of (''use ``` inline'' @ [nl] @ '' ```'' @ [nl] @ ''```js x'' @ [nl] @ ''````'')) \<and>
   md_highlight demo_libs (''use ``` inline'' @ [nl] @ '' ```'' @ [nl] @ ''```js x'' @ [nl] @ ''````'') =
     ''use ``` inline'' @ [nl] @ '' ```'' @ [nl] @ ''```js x'' @ [nl] @ ''````'' \<and>
   list_all wf_item [Line ''a ``` b'', Fence ''py'' [''x''], Line ''c```''] \<and>
   render [Line ''a ``` b'', Fence ''py'' [''x''], Line ''c```''] =
     ''a ``` b'' @ [nl] @ ''```py'' @ [nl] @ ''x'' @ [nl] @ ''```'' @ [nl] @ ''c```'' \<and>
   md_highlight demo_libs
     (''a ``` b'' @ [nl] @ ''```py'' @ [nl] @ ''x'' @ [nl] @ ''```'' @ [nl] @ ''c```'') =
     ''a ``` b'' @ [nl] @ ''<pre class="highlight"><code class="language-py">'' @ [nl] @ ''x''
       @ [nl] @ ''</code></pre>'' @ [nl] @ ''c```''\<close>
proof -
  have h1: \<open>match_here None (''```py'' @ [nl] @ ''x'' @ [nl] @ ''```'') =
      Some (Some ''py'', [nl] @ ''x'' @ [nl], [])\<close>
    by (simp add: matcher_defs)
  have h2: \<open>list_all (\<lambda>l. \<not> opener_line l)
      (lines_of (''use ``` inline'' @ [nl] @ '' ```'' @ [nl] @ ''```js x'' @ [nl] @ ''````''))\<close>
    by (simp add: opener_line_def is_lower_def ticks_def nl_def)
  have h3: \<open>list_all wf_item [Line ''a ``` b'', Fence ''py'' [''x''], Line ''c```'']\<close>
    by (simp add: opener_line_def is_lower_def ticks_def nl_def)
  have r: \<open>render [Line ''a ``` b'', Fence ''py'' [''x''], Line ''c```''] =
     ''a ``` b'' @ [nl] @ ''```py'' @ [nl] @ ''x'' @ [nl] @ ''```'' @ [nl] @ ''c```''\<close>
    by (simp add: render_def body_text_def ticks_def)
  from fence_delimiters_full_lines [where prev = None
      and s = \<open>''```py'' @ [nl] @ ''x'' @ [nl] @ ''```''\<close> and lang = \<open>Some ''py''\<close>
      and code = \<open>[nl] @ ''x'' @ [nl]\<close> and r = \<open>[]\<close>
      and md = \<open>''use ``` inline'' @ [nl] @ '' ```'' @ [nl] @ ''```js x'' @ [nl] @ ''````''\<close>
      and doc = \<open>[Line ''a ``` b'', Fence ''py'' [''x''], Line ''c```'']\<close>
      and L = demo_libs] h1 h2 h3 r
  show ?thesis
    by (simp add: groups_of_def body_text_def md_codeblock_def format_str_def demo_libs_def)
qed

subsection \<open>The renderer flags\<close>

text \<open>
  C8. \<open>CMARK_FLAGS\<close>, which is 132096, is the bitwise or of the raw-HTML flag \<open>1 << 17\<close>
  (131072) and the smart-punctuation flag \<open>1 << 10\<close> (1024); bits 10 and 17 are the only
  bits set.
\<close>

theorem cmark_flags_bits:
  \<open>CMARK_FLAGS = 132096 \<and> UNSAFE = 131072 \<and> SMART = 1024 \<and>
   CMARK_FLAGS = UNSAFE OR SMART \<and>
   CMARK_FLAGS AND NOT (UNSAFE OR SMART) = 0 \<and>
   {n. bit CMARK_FLAGS n} = {10, 17}\<close>
proof -
  have eq: \<open>CMARK_FLAGS = push_bit 17 1 OR push_bit 10 1\<close>
    by (simp add: CMARK_FLAGS_def)
  have \<open>bit CMARK_FLAGS n \<longleftrightarrow> n = 10 \<or> n = 17\<close> for n
    unfolding eq by (simp only: bit_or_iff bit_push_bit_iff bit_1_iff) auto
  then have \<open>{n. bit CMARK_FLAGS n} = {10, 17}\<close> by auto
  moreover have \<open>CMARK_FLAGS = 132096 \<and> UNSAFE = 131072 \<and> SMART = 1024 \<and>
      CMARK_FLAGS = UNSAFE OR SMART \<and> CMARK_FLAGS AND NOT (UNSAFE OR SMART) = 0\<close>
    by (simp add: CMARK_FLAGS_def UNSAFE_def SMART_def)
  ultimately show ?thesis by simp
qed

subsection \<open>Unterminated fences\<close>

text \<open>
  C9, as stated, fails: a document can hold an opening fence line that no closing line
  follows and still be changed, because a complete fence stands before it. Here the
  first three lines are a complete fence and the fourth opens a fence that is never
  closed; the first fence is replaced.
\<close>

theorem unterminated_fence_counterexample:
  \<open>has_unterminated_opener
     (lines_of (''```'' @ [nl] @ ''a'' @ [nl] @ ''```'' @ [nl] @ ''```python'' @ [nl] @ ''b'')) \<and>
   md_highlight demo_libs (''```'' @ [nl] @ ''a'' @ [nl] @ ''```'' @ [nl] @ ''```python'' @ [nl] @ ''b'') =
     ''<pre class="highlight"><code class="language-None">'' @ [nl] @ ''a'' @ [nl]
       @ ''</code></pre>'' @ [nl] @ ''```python'' @ [nl] @ ''b'' \<and>
   md_highlight demo_libs (''```'' @ [nl] @ ''a'' @ [nl] @ ''```'' @ [nl] @ ''```python'' @ [nl] @ ''b'') \<noteq>
     ''```'' @ [nl] @ ''a'' @ [nl] @ ''```'' @ [nl] @ ''```python'' @ [nl] @ ''b''\<close>
proof -
  have \<open>subx None (''```'' @ [nl] @ ''a'' @ [nl] @ ''```'' @ [nl] @ ''```python'' @ [nl] @ ''b'') =
      [Slice [], Found (None, [nl] @ ''a'' @ [nl]), Slice ([nl] @ ''```python'' @ [nl] @ ''b'')]\<close>
    by (simp add: subx.simps matcher_defs)
  then have \<open>md_highlight demo_libs
      (''```'' @ [nl] @ ''a'' @ [nl] @ ''```'' @ [nl] @ ''```python'' @ [nl] @ ''b'') =
     ''<pre class="highlight"><code class="language-None">'' @ [nl] @ ''a'' @ [nl]
       @ ''</code></pre>'' @ [nl] @ ''```python'' @ [nl] @ ''b''\<close>
    by (simp add: md_highlight_def md_codeblock_def format_str_def demo_libs_def)
  moreover have \<open>has_unterminated_opener
     (lines_of (''```'' @ [nl] @ ''a'' @ [nl] @ ''```'' @ [nl] @ ''```python'' @ [nl] @ ''b''))\<close>
    by (simp add: opener_line_def is_lower_def ticks_def nl_def)
  ultimately show ?thesis by simp
qed

text \<open>
  C9, amended. When no opening fence line of a text is followed anywhere later by a
  closing line of three backticks alone, the pattern matches nowhere and \<open>md_highlight\<close>
  returns the text as it is: the unterminated fences stay plain Markdown.
\<close>

theorem unclosed_fences_unchanged:
  assumes \<open>no_closed_fence (lines_of md)\<close>
  shows \<open>search None md = None \<and> found_groups (subx None md) = [] \<and> md_highlight L md = md\<close>
proof -
  from assms have \<open>search None md = None\<close> by (rule search_unclosed)
  then show ?thesis by (simp add: md_highlight_no_match subx_None)
qed

theorem unclosed_fences_unchanged_witness:
  \<open>no_closed_fence (lines_of (''intro'' @ [nl] @ ''```python'' @ [nl] @ ''x = 1'' @ [nl])) \<and>
   has_unterminated_opener (lines_of (''intro'' @ [nl] @ ''```python'' @ [nl] @ ''x = 1'' @ [nl])) \<and>
   md_highlight demo_libs (''intro'' @ [nl] @ ''```python'' @ [nl] @ ''x = 1'' @ [nl]) =
     ''intro'' @ [nl] @ ''```python'' @ [nl] @ ''x = 1'' @ [nl]\<close>
proof -
  have h: \<open>no_closed_fence (lines_of (''intro'' @ [nl] @ ''```python'' @ [nl] @ ''x = 1'' @ [nl]))\<close>
    by (simp add: opener_line_def is_lower_def ticks_def nl_def)
  have u: \<open>has_unterminated_opener (lines_of (''intro'' @ [nl] @ ''```python'' @ [nl] @ ''x = 1'' @ [nl]))\<close>
    by (simp add: opener_line_def is_lower_def ticks_def nl_def)
  from unclosed_fences_unchanged [OF h, of demo_libs] h u show ?thesis by simp
qed

subsection \<open>CRLF line endings\<close>

text \<open>
  C10. In a text where a carriage return stands before every line feed, the pattern
  matches nowhere: an opening line would have to end right before a line feed, and there
  the carriage return stands. \<open>md_highlight\<close> returns such a text as it is.
\<close>

theorem crlf_never_matches:
  assumes \<open>list_all (\<lambda>l. l \<noteq> [] \<and> last l = CR) (butlast (lines_of md))\<close>
  shows \<open>search None md = None \<and> found_groups (subx None md) = [] \<and> md_highlight L md = md\<close>
proof -
  from assms have \<open>list_all (\<lambda>l. \<not> opener_line l) (butlast (lines_of md))\<close>
    by (auto simp: list_all_iff CR_not_opener)
  then have \<open>no_closed_fence (lines_of md)\<close> by (rule no_opener_no_closed_fence)
  then have \<open>search None md = None\<close> by (rule search_unclosed)
  then show ?thesis by (simp add: md_highlight_no_match subx_None)
qed

theorem crlf_never_matches_witness:
  \<open>list_all (\<lambda>l. l \<noteq> [] \<and> last l = CR)
     (butlast (lines_of (''```python'' @ [CR, nl] @ ''x = 1'' @ [CR, nl] @ ''```'' @ [CR, nl]))) \<and>
   search None (''```python'' @ [CR, nl] @ ''x = 1'' @ [CR, nl] @ ''```'' @ [CR, nl]) = None \<and>
   md_highlight demo_libs (''```python'' @ [CR, nl] @ ''x = 1'' @ [CR, nl] @ ''```'' @ [CR, nl]) =
     ''```python'' @ [CR, nl] @ ''x = 1'' @ [CR, nl] @ ''```'' @ [CR, nl]\<close>
proof -
  have h: \<open>list_all (\<lambda>l. l \<noteq> [] \<and> last l = CR)
     (butlast (lines_of (''```python'' @ [CR, nl] @ ''x = 1'' @ [CR, nl] @ ''```'' @ [CR, nl])))\<close>
    by (simp add: CR_def nl_def)
  from crlf_never_matches [OF h, of demo_libs] h show ?thesis by simp
qed

end
